theory Spec2Isabelle
  imports Main "HOL-Library.Word"
begin

section \<open>Data model\<close>

text \<open>
  The linker of \<^verbatim>\<open>SkRasterPipeline.cpp\<close> turns a chain of \<^verbatim>\<open>StageList\<close> nodes into a flat
  Program of \<^verbatim>\<open>void*\<close> slots, written downwards from the end of a caller buffer.

  Every pointer value of the source (\<^verbatim>\<open>void*\<close>, \<^verbatim>\<open>StageFn\<close>, \<^verbatim>\<open>StageList*\<close>) is a number, and
  \<open>0\<close> is \<^verbatim>\<open>nullptr\<close>: the source only ever tests pointers against null and copies them.
\<close>

type_synonym ptr = nat

text \<open>
  \<^verbatim>\<open>enum StockStage\<close>: one enumerator for each entry of \<^verbatim>\<open>SK_RASTER_PIPELINE_STAGES\<close>, in the
  order of the macro. The stage tables have one entry for each enumerator. Of the
  enumeration only its constructors and their distinctness are used, so the derived
  setup of the datatype is left out.
\<close>

datatype (plugins only: extraction) StockStage =
    move_src_dst | move_dst_src
  | clamp_0 | clamp_1 | clamp_a | clamp_gamut
  | unpremul | premul | premul_dst
  | black_color | white_color
  | uniform_color | unbounded_uniform_color | uniform_color_dst
  | seed_shader | dither
  | load_8888 | load_8888_dst | store_8888 | gather_8888
  | bilerp_clamp_8888 | bicubic_clamp_8888
  | load_src | store_src | store_src_a | load_dst | store_dst
  | scale_u8 | scale_1_float | scale_native
  | lerp_u8 | lerp_1_float | lerp_native
  | dstatop | dstin | dstout | dstover
  | srcatop | srcin | srcout | srcover
  | clear | modulate | multiply | plus_ | screen | xor_
  | colorburn | colordodge | darken | difference
  | exclusion | hardlight | lighten | overlay | softlight
  | hue | saturation | color | luminosity
  | srcover_rgba_8888
  | matrix_translate | matrix_scale_translate
  | matrix_2x3 | matrix_3x3 | matrix_3x4 | matrix_4x5 | matrix_4x3
  | mirror_x | repeat_x
  | mirror_y | repeat_y
  | negate_x
  | bilinear | bicubic
  | bilinear_nx | bilinear_px | bilinear_ny | bilinear_py
  | bicubic_n3x | bicubic_n1x | bicubic_p1x | bicubic_p3x
  | bicubic_n3y | bicubic_n1y | bicubic_p1y | bicubic_p3y
  | save_xy | accumulate
  | clamp_x_1 | mirror_x_1 | repeat_x_1
  | evenly_spaced_gradient
  | gradient
  | evenly_spaced_2_stop_gradient
  | xy_to_unit_angle
  | xy_to_radius
  | xy_to_2pt_conical_strip
  | xy_to_2pt_conical_focal_on_circle
  | xy_to_2pt_conical_well_behaved
  | xy_to_2pt_conical_smaller
  | xy_to_2pt_conical_greater
  | alter_2pt_conical_compensate_focal
  | alter_2pt_conical_unswap
  | mask_2pt_conical_nan
  | mask_2pt_conical_degenerates | apply_vector_mask

text \<open>\<^verbatim>\<open>struct StageList { StageList* prev; StockStage stage; void* ctx; }\<close>\<close>

record StageList =
  prev :: ptr
  stage :: StockStage
  ctx :: ptr

text \<open>
  \<^verbatim>\<open>SkOpts.cpp\<close> initialises the two entry points \<^verbatim>\<open>SkOpts::start_pipeline_highp\<close> and
  \<^verbatim>\<open>SkOpts::start_pipeline_lowp\<close> with two different functions and nothing assigns them
  afterwards, so a value of type \<^verbatim>\<open>StartPipelineFn\<close> that the linker returns is one of two
  distinct constants.
\<close>

datatype StartPipelineFn = start_pipeline_highp | start_pipeline_lowp

text \<open>
  The stage tables and the two sentinels of namespace \<^verbatim>\<open>SkOpts\<close>. Their contents come from
  \<^verbatim>\<open>SkRasterPipeline_opts.h\<close>, which is not among the sources, so they are parameters of the
  model. A null entry of \<open>stages_lowp\<close> is a stage without a lowp implementation.
\<close>

record SkOpts =
  stages_highp :: "StockStage \<Rightarrow> ptr"
  just_return_highp :: ptr
  stages_lowp :: "StockStage \<Rightarrow> ptr"
  just_return_lowp :: ptr

text \<open>
  The memory the linker works on, split by the type of the objects: the \<^verbatim>\<open>StageList\<close> nodes
  by address, and the \<^verbatim>\<open>void*\<close> slots that \<^verbatim>\<open>void** ip\<close> ranges over. Slot addresses count
  in units of one slot, so \<^verbatim>\<open>--ip\<close> is \<open>ip - 1\<close>; they are integers, since the cursor only
  moves down from wherever the caller's buffer ends.
\<close>

record memory =
  nodes :: "ptr \<rightharpoonup> StageList"
  slots :: "int \<Rightarrow> ptr"

section \<open>The linker\<close>

text \<open>\<^verbatim>\<open>*--ip = v\<close>\<close>

definition push :: "ptr \<Rightarrow> memory \<times> int \<Rightarrow> memory \<times> int" where
  "push v s = (case s of (m, ip) \<Rightarrow> (m\<lparr>slots := (slots m)(ip - 1 := v)\<rparr>, ip - 1))"

text \<open>
  The first loop of \<^verbatim>\<open>build_pipeline\<close>, from the node \<open>st\<close> on. The walk follows \<^verbatim>\<open>prev\<close>
  pointers through memory and ends at a null pointer; the result is \<open>None\<close> when the call
  does not return a defined result: the chain never reaches null, or \<open>st\<close> is not the
  address of a node. A stage without a lowp entry sets \<open>ip\<close> back to \<open>reset_point\<close> and
  leaves the loop.
\<close>

partial_function (option) lowp_loop ::
  "SkOpts \<Rightarrow> int \<Rightarrow> ptr \<Rightarrow> memory \<Rightarrow> int \<Rightarrow> (memory \<times> int) option" where
  "lowp_loop opts reset_point st m ip =
     (if st = 0 then Some (m, ip)
      else case nodes m st of
        None \<Rightarrow> None
      | Some n \<Rightarrow>
          (let fn = stages_lowp opts (stage n) in
           if fn \<noteq> 0 then
             (let (m1, ip1) = (if ctx n \<noteq> 0 then push (ctx n) (m, ip) else (m, ip));
                  (m2, ip2) = push fn (m1, ip1)
              in lowp_loop opts reset_point (prev n) m2 ip2)
           else Some (m, reset_point)))"

text \<open>The second loop: the highp table entry is written whatever it is.\<close>

partial_function (option) highp_loop ::
  "SkOpts \<Rightarrow> ptr \<Rightarrow> memory \<Rightarrow> int \<Rightarrow> (memory \<times> int) option" where
  "highp_loop opts st m ip =
     (if st = 0 then Some (m, ip)
      else case nodes m st of
        None \<Rightarrow> None
      | Some n \<Rightarrow>
          (let (m1, ip1) = (if ctx n \<noteq> 0 then push (ctx n) (m, ip) else (m, ip));
               (m2, ip2) = push (stages_highp opts (stage n)) (m1, ip1)
           in highp_loop opts (prev n) m2 ip2))"

text \<open>
  \<^verbatim>\<open>build_pipeline(stages, ip)\<close>. The C++ function returns the entry point only; the model
  also gives the memory it leaves and the last value of its cursor \<open>ip\<close>, which is the
  address of the first slot of the Program.
\<close>

definition build_pipeline ::
  "SkOpts \<Rightarrow> memory \<Rightarrow> ptr \<Rightarrow> int \<Rightarrow> (StartPipelineFn \<times> memory \<times> int) option" where
  "build_pipeline opts m stages ip =
     (let reset_point = ip;
          (m0, ip0) = push (just_return_lowp opts) (m, ip)
      in case lowp_loop opts reset_point stages m0 ip0 of
           None \<Rightarrow> None
         | Some (m1, ip1) \<Rightarrow>
             if ip1 \<noteq> reset_point then Some (start_pipeline_lowp, m1, ip1)
             else
               (let (m2, ip2) = push (just_return_highp opts) (m1, ip1)
                in case highp_loop opts stages m2 ip2 of
                     None \<Rightarrow> None
                   | Some (m3, ip3) \<Rightarrow> Some (start_pipeline_highp, m3, ip3)))"

text \<open>\<^verbatim>\<open>skia_pipe_raster_build_pipeline\<close>: true when the highp entry point was chosen.\<close>

definition skia_pipe_raster_build_pipeline ::
  "SkOpts \<Rightarrow> memory \<Rightarrow> ptr \<Rightarrow> int \<Rightarrow> (bool \<times> memory) option" where
  "skia_pipe_raster_build_pipeline opts m stages ip =
     (case build_pipeline opts m stages ip of
        None \<Rightarrow> None
      | Some (fn, m', ip') \<Rightarrow> Some (fn = start_pipeline_highp, m'))"

section \<open>Running a Program\<close>

text \<open>
  \<^verbatim>\<open>skia_pipe_raster_run_pipeline\<close> does nothing but call one of the two entry points, which
  are not defined in these sources. The model returns the calls it makes, in order: the
  entry point, its four \<^verbatim>\<open>size_t\<close> arguments and the program pointer.
\<close>

datatype invocation = Invoke StartPipelineFn nat nat nat nat int

fun callee :: "invocation \<Rightarrow> StartPipelineFn" where
  "callee (Invoke fn a b c d p) = fn"

fun arguments :: "invocation \<Rightarrow> nat \<times> nat \<times> nat \<times> nat \<times> int" where
  "arguments (Invoke fn a b c d p) = (a, b, c, d, p)"

text \<open>
  The definition in \<^verbatim>\<open>SkRasterPipeline.cpp\<close> takes \<^verbatim>\<open>unsigned int\<close> coordinates, 32 bits wide:
  \<^verbatim>\<open>x+w\<close> and \<^verbatim>\<open>y+h\<close> are computed at that width, and the results are widened to \<^verbatim>\<open>size_t\<close>
  for the call, which keeps their value.
\<close>

type_synonym uint = "32 word"

definition skia_pipe_raster_run_pipeline ::
  "int \<Rightarrow> bool \<Rightarrow> uint \<Rightarrow> uint \<Rightarrow> uint \<Rightarrow> uint \<Rightarrow> invocation list" where
  "skia_pipe_raster_run_pipeline program is_highp x y w h =
     (if is_highp then
        [Invoke start_pipeline_highp (unat x) (unat y) (unat (x + w)) (unat (y + h)) program]
      else
        [Invoke start_pipeline_lowp (unat x) (unat y) (unat (x + w)) (unat (y + h)) program])"

text \<open>
  Modelled from the spec: the row loop of the entry points \<^verbatim>\<open>start_pipeline_highp\<close> and
  \<^verbatim>\<open>start_pipeline_lowp\<close>, whose definitions (in \<^verbatim>\<open>SkRasterPipeline_opts.h\<close>) are missing from
  the sources. The spec's Executor iterates the rows \<open>y0..<y1\<close> top to bottom; within a
  row it processes the columns in chunks whose width is the tier's batch width \<open>S\<close>, a
  positive constant of the tier, and any remaining columns, narrower than a batch, as one
  more tail chunk. A chunk of a row is recorded as its first column and its number of
  active lanes; a chunk of a run, as the program it replays, its first column, its row and
  its number of active lanes.
\<close>

function row_chunks :: "nat \<Rightarrow> nat \<Rightarrow> nat \<Rightarrow> (nat \<times> nat) list" where
  "row_chunks S dx xlimit =
     (if 0 < S \<and> dx + S \<le> xlimit then (dx, S) # row_chunks S (dx + S) xlimit
      else if dx < xlimit then [(dx, xlimit - dx)]
      else [])"
  by pat_completeness auto
termination
  by (relation "measure (\<lambda>(S, dx, xlimit). xlimit - dx)") auto

declare row_chunks.simps [simp del]

text \<open>
  Modelled from the spec: the body of the entry points (missing, as above), for a tier of
  batch width \<open>S\<close>: the chunks of every row from \<open>y0\<close> up to \<open>y1\<close>, in the order in which
  they are processed.
\<close>

definition start_pipeline ::
  "nat \<Rightarrow> nat \<Rightarrow> nat \<Rightarrow> nat \<Rightarrow> nat \<Rightarrow> int \<Rightarrow> (int \<times> nat \<times> nat \<times> nat) list" where
  "start_pipeline S x0 y0 x1 y1 program =
     concat (map (\<lambda>dy. map (\<lambda>(dx, n). (program, dx, dy, n)) (row_chunks S x0 x1)) [y0..<y1])"

section \<open>Stage lists and Programs as values\<close>

text \<open>
  \<open>stage_chain N p ns\<close>: the pointer \<open>p\<close> is the head of a null-terminated chain of nodes
  in the node memory \<open>N\<close>, and \<open>ns\<close> are its nodes from the head, the stage appended last,
  to the stage appended first. The stages in append order are \<open>rev ns\<close>.
\<close>

fun stage_chain :: "(ptr \<rightharpoonup> StageList) \<Rightarrow> ptr \<Rightarrow> StageList list \<Rightarrow> bool" where
  "stage_chain N p [] = (p = 0)"
| "stage_chain N p (n # ns) = (p \<noteq> 0 \<and> N p = Some n \<and> stage_chain N (prev n) ns)"

text \<open>
  The slots of one stage under a stage table, by ascending address: its function pointer,
  then its parameter pointer if it has one.
\<close>

definition entry :: "(StockStage \<Rightarrow> ptr) \<Rightarrow> StageList \<Rightarrow> ptr list" where
  "entry tbl n = tbl (stage n) # (if ctx n \<noteq> 0 then [ctx n] else [])"

definition entries :: "(StockStage \<Rightarrow> ptr) \<Rightarrow> StageList list \<Rightarrow> ptr list" where
  "entries tbl ns = concat (map (entry tbl) (rev ns))"

text \<open>The Program of a stage list: the stages in append order, then the sentinel.\<close>

definition linked_program :: "(StockStage \<Rightarrow> ptr) \<Rightarrow> ptr \<Rightarrow> StageList list \<Rightarrow> ptr list" where
  "linked_program tbl sentinel ns = entries tbl ns @ [sentinel]"

definition slots_needed :: "StageList list \<Rightarrow> nat" where
  "slots_needed ns = sum_list (map (\<lambda>n. if ctx n \<noteq> 0 then 2 else 1) ns)"

text \<open>The stage table and the sentinel that belong to an entry point.\<close>

fun stages_of :: "SkOpts \<Rightarrow> StartPipelineFn \<Rightarrow> StockStage \<Rightarrow> ptr" where
  "stages_of opts start_pipeline_highp = stages_highp opts"
| "stages_of opts start_pipeline_lowp = stages_lowp opts"

fun just_return_of :: "SkOpts \<Rightarrow> StartPipelineFn \<Rightarrow> ptr" where
  "just_return_of opts start_pipeline_highp = just_return_highp opts"
| "just_return_of opts start_pipeline_lowp = just_return_lowp opts"

text \<open>
  \<open>store_at f a xs\<close> is the slot memory \<open>f\<close> with the list \<open>xs\<close> stored from address \<open>a\<close>
  upwards; \<open>read_slots f a k\<close> reads \<open>k\<close> slots from address \<open>a\<close> upwards.
\<close>

definition store_at :: "(int \<Rightarrow> 'a) \<Rightarrow> int \<Rightarrow> 'a list \<Rightarrow> int \<Rightarrow> 'a" where
  "store_at f a xs = (\<lambda>i. if a \<le> i \<and> i < a + int (length xs) then xs ! nat (i - a) else f i)"

fun read_slots :: "(int \<Rightarrow> 'a) \<Rightarrow> int \<Rightarrow> nat \<Rightarrow> 'a list" where
  "read_slots f a 0 = []"
| "read_slots f a (Suc k) = f a # read_slots f (a + 1) k"

subsection \<open>Example data\<close>

text \<open>
  Stage tables in which \<open>gather_8888\<close> has no lowp entry, and a node memory with two stage
  lists that share their first stage: \<open>load_8888\<close> (parameters at 7001), \<open>srcover\<close> (no
  parameters), \<open>store_8888\<close> (parameters at 7002), headed by node 3; and \<open>load_8888\<close>,
  \<open>gather_8888\<close> (parameters at 7003), \<open>store_8888\<close>, headed by node 5.
\<close>

definition example_opts :: SkOpts where
  "example_opts =
     \<lparr>stages_highp = (\<lambda>k. if k = load_8888 then 101 else if k = srcover then 102
                          else if k = store_8888 then 103 else if k = gather_8888 then 104
                          else 100),
      just_return_highp = 199,
      stages_lowp = (\<lambda>k. if k = load_8888 then 201 else if k = srcover then 202
                         else if k = store_8888 then 203 else if k = gather_8888 then 0
                         else 200),
      just_return_lowp = 299\<rparr>"

definition node_A :: StageList where
  "node_A = \<lparr>prev = 0, stage = load_8888, ctx = 7001\<rparr>"

definition node_B :: StageList where
  "node_B = \<lparr>prev = 1, stage = srcover, ctx = 0\<rparr>"

definition node_C :: StageList where
  "node_C = \<lparr>prev = 2, stage = store_8888, ctx = 7002\<rparr>"

definition node_D :: StageList where
  "node_D = \<lparr>prev = 1, stage = gather_8888, ctx = 7003\<rparr>"

definition node_E :: StageList where
  "node_E = \<lparr>prev = 4, stage = store_8888, ctx = 7002\<rparr>"

definition example_memory :: memory where
  "example_memory =
     \<lparr>nodes = [1 \<mapsto> node_A, 2 \<mapsto> node_B, 3 \<mapsto> node_C, 4 \<mapsto> node_D, 5 \<mapsto> node_E],
      slots = (\<lambda>i. 0)\<rparr>"

section \<open>Properties of the linker\<close>

subsection \<open>Slot memory\<close>

lemma store_at_Nil [simp]: "store_at f a [] = f"
  by (auto simp: store_at_def fun_eq_iff)

lemma store_at_append:
  "store_at (store_at f (a + int (length xs)) ys) a xs = store_at f a (xs @ ys)"
proof (rule ext)
  fix i
  consider "i < a" | "a \<le> i" "i < a + int (length xs)"
    | "a + int (length xs) \<le> i" "i < a + int (length xs) + int (length ys)"
    | "a + int (length xs) + int (length ys) \<le> i"
    by linarith
  then show "store_at (store_at f (a + int (length xs)) ys) a xs i = store_at f a (xs @ ys) i"
  proof cases
    case 1
    then show ?thesis by (simp add: store_at_def)
  next
    case 2
    then have "nat (i - a) < length xs" by linarith
    with 2 show ?thesis by (simp add: store_at_def nth_append)
  next
    case 3
    then have "\<not> nat (i - a) < length xs"
      and "nat (i - a) - length xs = nat (i - (a + int (length xs)))"
      by linarith+
    with 3 show ?thesis by (simp add: store_at_def nth_append)
  next
    case 4
    then show ?thesis by (simp add: store_at_def)
  qed
qed

lemma store_at_agree:
  assumes "\<And>i. i < a \<or> a + int (length xs) \<le> i \<Longrightarrow> f i = g i"
  shows "store_at f a xs = store_at g a xs"
  using assms by (auto simp: store_at_def fun_eq_iff)

lemma store_at_outside: "i < a \<or> a + int (length xs) \<le> i \<Longrightarrow> store_at f a xs i = f i"
  by (auto simp: store_at_def)

lemma read_slots_store_at_gen:
  "read_slots (store_at f a (xs @ ys)) (a + int (length xs)) (length ys) = ys"
proof (induction ys arbitrary: xs)
  case Nil
  show ?case by simp
next
  case (Cons y ys)
  have hd: "store_at f a (xs @ y # ys) (a + int (length xs)) = y"
    by (simp add: store_at_def)
  show ?case
    using hd Cons.IH [of "xs @ [y]"] by (simp add: ac_simps)
qed

lemma read_slots_store_at: "read_slots (store_at f a xs) a (length xs) = xs"
  using read_slots_store_at_gen [of f a "[]" xs] by simp

lemma length_entries: "length (entries tbl ns) = slots_needed ns"
  by (induction ns) (simp_all add: entries_def slots_needed_def entry_def)

lemma slots_needed_le: "slots_needed ns \<le> 2 * length ns"
  by (induction ns) (simp_all add: slots_needed_def)

lemma entries_Cons: "entries tbl (n # ns) = entries tbl ns @ entry tbl n"
  by (simp add: entries_def)

lemma store_at_one: "store_at f a [v] = f(a := v)"
  by (auto simp: store_at_def fun_eq_iff)

lemma store_at_two: "store_at f a [u, v] = f(a + 1 := v, a := u)"
  by (auto simp: store_at_def fun_eq_iff)

lemma highp_loop_stage_chain:
  "stage_chain (nodes m) st ns \<Longrightarrow>
   highp_loop opts st m ip =
     Some (m\<lparr>slots := store_at (slots m) (ip - int (slots_needed ns)) (entries (stages_highp opts) ns)\<rparr>,
           ip - int (slots_needed ns))"
proof (induction ns arbitrary: st m ip)
  case Nil
  then show ?case
    by (simp add: highp_loop.simps entries_def slots_needed_def)
next
  case (Cons n ns)
  let ?e = "entry (stages_highp opts) n"
  let ?m1 = "m\<lparr>slots := store_at (slots m) (ip - int (length ?e)) ?e\<rparr>"
  let ?ip1 = "ip - int (length ?e)"
  from Cons.prems have st: "st \<noteq> 0" "nodes m st = Some n" and rest: "stage_chain (nodes ?m1) (prev n) ns"
    by simp_all
  have step: "highp_loop opts st m ip = highp_loop opts (prev n) ?m1 ?ip1"
    using st
    by (cases "ctx n = 0"; subst highp_loop.simps)
       (simp_all add: push_def entry_def store_at_one store_at_two)
  have len: "slots_needed (n # ns) = slots_needed ns + length ?e"
    by (simp add: slots_needed_def entry_def)
  have "store_at (store_at (slots m) (ip - int (length ?e)) ?e)
          (ip - int (length ?e) - int (slots_needed ns)) (entries (stages_highp opts) ns)
        = store_at (slots m) (ip - int (slots_needed (n # ns))) (entries (stages_highp opts) (n # ns))"
    using store_at_append [of "slots m" "ip - int (slots_needed (n # ns))"
        "entries (stages_highp opts) ns" ?e]
    by (simp add: len length_entries entries_Cons algebra_simps)
  with Cons.IH [OF rest, of ?ip1] step show ?case
    by (simp add: len algebra_simps)
qed


lemma slots_needed_Cons:
  "slots_needed (n # ns) = slots_needed ns + length (entry tbl n)"
  by (simp add: slots_needed_def entry_def)

lemma lowp_loop_step:
  assumes "st \<noteq> 0" "nodes m st = Some n" "stages_lowp opts (stage n) \<noteq> 0"
  shows "lowp_loop opts reset_point st m ip =
         lowp_loop opts reset_point (prev n)
           (m\<lparr>slots := store_at (slots m) (ip - int (length (entry (stages_lowp opts) n)))
                          (entry (stages_lowp opts) n)\<rparr>)
           (ip - int (length (entry (stages_lowp opts) n)))"
  using assms
  by (cases "ctx n = 0"; subst lowp_loop.simps)
     (simp_all add: push_def entry_def store_at_one store_at_two)

lemma lowp_loop_stage_chain:
  "stage_chain (nodes m) st ns \<Longrightarrow> \<forall>n \<in> set ns. stages_lowp opts (stage n) \<noteq> 0 \<Longrightarrow>
   lowp_loop opts reset_point st m ip =
     Some (m\<lparr>slots := store_at (slots m) (ip - int (slots_needed ns)) (entries (stages_lowp opts) ns)\<rparr>,
           ip - int (slots_needed ns))"
proof (induction ns arbitrary: st m ip)
  case Nil
  then show ?case
    by (simp add: lowp_loop.simps entries_def slots_needed_def)
next
  case (Cons n ns)
  let ?e = "entry (stages_lowp opts) n"
  let ?m1 = "m\<lparr>slots := store_at (slots m) (ip - int (length ?e)) ?e\<rparr>"
  let ?ip1 = "ip - int (length ?e)"
  from Cons.prems have st: "st \<noteq> 0" "nodes m st = Some n" "stages_lowp opts (stage n) \<noteq> 0"
    and rest: "stage_chain (nodes ?m1) (prev n) ns" "\<forall>n \<in> set ns. stages_lowp opts (stage n) \<noteq> 0"
    by simp_all
  have len: "slots_needed (n # ns) = slots_needed ns + length ?e"
    by (rule slots_needed_Cons)
  have "store_at (store_at (slots m) (ip - int (length ?e)) ?e)
          (ip - int (length ?e) - int (slots_needed ns)) (entries (stages_lowp opts) ns)
        = store_at (slots m) (ip - int (slots_needed (n # ns))) (entries (stages_lowp opts) (n # ns))"
    using store_at_append [of "slots m" "ip - int (slots_needed (n # ns))"
        "entries (stages_lowp opts) ns" ?e]
    by (simp add: len length_entries entries_Cons algebra_simps)
  with Cons.IH [OF rest, of ?ip1] lowp_loop_step [OF st] show ?case
    by (simp add: len algebra_simps)
qed

lemma lowp_loop_stage_chain_abort:
  "stage_chain (nodes m) st ns \<Longrightarrow> \<exists>n \<in> set ns. stages_lowp opts (stage n) = 0 \<Longrightarrow>
   \<exists>m'. lowp_loop opts reset_point st m ip = Some (m', reset_point) \<and> nodes m' = nodes m \<and>
        (\<forall>i. i < ip - int (slots_needed ns) \<or> ip \<le> i \<longrightarrow> slots m' i = slots m i)"
proof (induction ns arbitrary: st m ip)
  case Nil
  then show ?case by simp
next
  case (Cons n ns)
  from Cons.prems have st: "st \<noteq> 0" "nodes m st = Some n"
    by simp_all
  show ?case
  proof (cases "stages_lowp opts (stage n) = 0")
    case True
    with st have "lowp_loop opts reset_point st m ip = Some (m, reset_point)"
      by (subst lowp_loop.simps) simp
    then show ?thesis by simp
  next
    case False
    let ?e = "entry (stages_lowp opts) n"
    let ?m1 = "m\<lparr>slots := store_at (slots m) (ip - int (length ?e)) ?e\<rparr>"
    let ?ip1 = "ip - int (length ?e)"
    from Cons.prems False have rest: "stage_chain (nodes ?m1) (prev n) ns"
      "\<exists>n \<in> set ns. stages_lowp opts (stage n) = 0"
      by auto
    from Cons.IH [OF rest, of ?ip1] obtain m' where
      run: "lowp_loop opts reset_point (prev n) ?m1 ?ip1 = Some (m', reset_point)"
      and nd: "nodes m' = nodes ?m1"
      and fr: "\<And>i. i < ?ip1 - int (slots_needed ns) \<or> ?ip1 \<le> i \<Longrightarrow> slots m' i = slots ?m1 i"
      by blast
    have len: "slots_needed (n # ns) = slots_needed ns + length ?e"
      by (rule slots_needed_Cons)
    have "slots m' i = slots m i" if "i < ip - int (slots_needed (n # ns)) \<or> ip \<le> i" for i
    proof -
      from that have "i < ?ip1 - int (slots_needed ns) \<or> ?ip1 \<le> i"
        by (auto simp: len)
      then have "slots m' i = slots ?m1 i" by (rule fr)
      also from that have "slots ?m1 i = slots m i"
        by (auto simp: len store_at_outside)
      finally show ?thesis .
    qed
    with run nd lowp_loop_step [OF st False, of reset_point ip] show ?thesis
      by simp
  qed
qed

lemma length_program: "length (linked_program tbl s ns) = slots_needed ns + 1"
  by (simp add: linked_program_def length_entries)

lemma store_at_program:
  "store_at ((slots m)(ip - 1 := s)) (ip - int (length (linked_program tbl s ns))) (entries tbl ns) =
   store_at (slots m) (ip - int (length (linked_program tbl s ns))) (linked_program tbl s ns)"
  using store_at_append [of "slots m" "ip - 1 - int (slots_needed ns)" "entries tbl ns" "[s]"]
  by (simp add: linked_program_def length_entries store_at_one algebra_simps)

lemma program_start: "ip - 1 - int (slots_needed ns) = ip - int (length (linked_program tbl s ns))"
  by (simp add: length_program)

lemma build_pipeline_all_lowp:
  assumes "stage_chain (nodes m) stages ns" "\<forall>n \<in> set ns. stages_lowp opts (stage n) \<noteq> 0"
  shows "build_pipeline opts m stages ip =
     Some (start_pipeline_lowp,
           m\<lparr>slots := store_at (slots m)
                (ip - int (length (linked_program (stages_lowp opts) (just_return_lowp opts) ns)))
                (linked_program (stages_lowp opts) (just_return_lowp opts) ns)\<rparr>,
           ip - int (length (linked_program (stages_lowp opts) (just_return_lowp opts) ns)))"
proof -
  let ?P = "linked_program (stages_lowp opts) (just_return_lowp opts) ns"
  let ?m0 = "m\<lparr>slots := (slots m)(ip - 1 := just_return_lowp opts)\<rparr>"
  from assms(1) have "stage_chain (nodes ?m0) stages ns" by simp
  then have "lowp_loop opts ip stages ?m0 (ip - 1) =
      Some (?m0\<lparr>slots := store_at (slots ?m0) (ip - 1 - int (slots_needed ns))
                              (entries (stages_lowp opts) ns)\<rparr>,
            ip - 1 - int (slots_needed ns))"
    using assms(2) by (rule lowp_loop_stage_chain)
  then have run: "lowp_loop opts ip stages ?m0 (ip - 1) =
      Some (m\<lparr>slots := store_at (slots m) (ip - int (length ?P)) ?P\<rparr>, ip - int (length ?P))"
    unfolding program_start [of ip ns "stages_lowp opts" "just_return_lowp opts"]
    by (simp add: store_at_program)
  have "ip - int (length ?P) \<noteq> ip"
    by (simp add: length_program)
  with run show ?thesis
    by (simp add: build_pipeline_def push_def)
qed

lemma build_pipeline_some_highp:
  assumes "stage_chain (nodes m) stages ns" "\<exists>n \<in> set ns. stages_lowp opts (stage n) = 0"
  shows "build_pipeline opts m stages ip =
     Some (start_pipeline_highp,
           m\<lparr>slots := store_at (slots m)
                (ip - int (length (linked_program (stages_highp opts) (just_return_highp opts) ns)))
                (linked_program (stages_highp opts) (just_return_highp opts) ns)\<rparr>,
           ip - int (length (linked_program (stages_highp opts) (just_return_highp opts) ns)))"
proof -
  let ?P = "linked_program (stages_highp opts) (just_return_highp opts) ns"
  let ?m0 = "m\<lparr>slots := (slots m)(ip - 1 := just_return_lowp opts)\<rparr>"
  from assms(1) have "stage_chain (nodes ?m0) stages ns" by simp
  from lowp_loop_stage_chain_abort [OF this assms(2), of ip "ip - 1"] obtain m1 where
    run1: "lowp_loop opts ip stages ?m0 (ip - 1) = Some (m1, ip)"
    and nd0: "nodes m1 = nodes ?m0"
    and fr: "\<And>i. i < ip - 1 - int (slots_needed ns) \<or> ip - 1 \<le> i \<Longrightarrow> slots m1 i = slots ?m0 i"
    by blast
  from nd0 have nd: "nodes m1 = nodes m" by simp
  let ?m2 = "m1\<lparr>slots := (slots m1)(ip - 1 := just_return_highp opts)\<rparr>"
  from assms(1) nd have "stage_chain (nodes ?m2) stages ns" by simp
  then have "highp_loop opts stages ?m2 (ip - 1) =
      Some (?m2\<lparr>slots := store_at (slots ?m2) (ip - 1 - int (slots_needed ns))
                              (entries (stages_highp opts) ns)\<rparr>,
            ip - 1 - int (slots_needed ns))"
    by (rule highp_loop_stage_chain)
  then have run2: "highp_loop opts stages ?m2 (ip - 1) =
      Some (m1\<lparr>slots := store_at (slots m1) (ip - int (length ?P)) ?P\<rparr>, ip - int (length ?P))"
    unfolding program_start [of ip ns "stages_highp opts" "just_return_highp opts"]
    by (simp add: store_at_program)
  have same: "store_at (slots m1) (ip - int (length ?P)) ?P = store_at (slots m) (ip - int (length ?P)) ?P"
  proof (rule store_at_agree)
    fix i assume "i < ip - int (length ?P) \<or> ip - int (length ?P) + int (length ?P) \<le> i"
    then have out: "i < ip - 1 - int (slots_needed ns) \<or> ip \<le> i"
      by (auto simp: length_program)
    then have "slots m1 i = slots ?m0 i"
      by (intro fr) auto
    with out show "slots m1 i = slots m i"
      by auto
  qed
  have "m1\<lparr>slots := store_at (slots m) (ip - int (length ?P)) ?P\<rparr> =
        m\<lparr>slots := store_at (slots m) (ip - int (length ?P)) ?P\<rparr>"
    using nd by simp
  with run1 run2 same show ?thesis
    by (simp add: build_pipeline_def push_def)
qed



lemma read_slots_numeral:
  "read_slots f a (numeral k) = f a # read_slots f (a + 1) (pred_numeral k)"
  by (simp add: numeral_eq_Suc)

lemma read_slots_agree:
  "(\<And>i. a \<le> i \<and> i < a + int k \<Longrightarrow> f i = g i) \<Longrightarrow> read_slots f a k = read_slots g a k"
proof (induction k arbitrary: a)
  case 0
  show ?case by simp
next
  case (Suc k)
  have "f a = g a"
    by (rule Suc.prems) simp
  moreover have "read_slots f (a + 1) k = read_slots g (a + 1) k"
    by (rule Suc.IH, rule Suc.prems) simp
  ultimately show ?case by simp
qed

lemma build_pipeline_returns:
  assumes "stage_chain (nodes m) stages ns"
  shows "\<exists>fn m' ip'. build_pipeline opts m stages ip = Some (fn, m', ip') \<and> nodes m' = nodes m \<and>
           ip' = ip - int (slots_needed ns) - 1 \<and>
           (\<forall>i. i < ip' \<or> ip \<le> i \<longrightarrow> slots m' i = slots m i)"
proof (cases "\<forall>n \<in> set ns. stages_lowp opts (stage n) \<noteq> 0")
  case True
  show ?thesis
    unfolding build_pipeline_all_lowp [OF assms True]
    by (simp add: length_program store_at_outside)
next
  case False
  then have some: "\<exists>n \<in> set ns. stages_lowp opts (stage n) = 0" by simp
  show ?thesis
    unfolding build_pipeline_some_highp [OF assms some]
    by (simp add: length_program store_at_outside)
qed

lemma lowp_loop_frame:
  assumes "stage_chain (nodes m) st ns"
  shows "\<exists>m1 ip1. lowp_loop opts reset_point st m ip = Some (m1, ip1) \<and> nodes m1 = nodes m \<and>
           (ip1 = reset_point \<or> ip1 = ip - int (slots_needed ns)) \<and>
           (\<forall>i. i < ip - int (slots_needed ns) \<or> ip \<le> i \<longrightarrow> slots m1 i = slots m i)"
proof (cases "\<forall>n \<in> set ns. stages_lowp opts (stage n) \<noteq> 0")
  case True
  show ?thesis
    unfolding lowp_loop_stage_chain [OF assms True]
    by (simp add: store_at_outside length_entries)
next
  case False
  then have some: "\<exists>n \<in> set ns. stages_lowp opts (stage n) = 0" by simp
  from lowp_loop_stage_chain_abort [OF assms some, of reset_point ip] show ?thesis
    by blast
qed

lemma row_chunks_closed:
  "0 < S \<Longrightarrow> dx \<le> xlimit \<Longrightarrow>
   row_chunks S dx xlimit =
     map (\<lambda>k. (dx + k * S, S)) [0..<(xlimit - dx) div S] @
     (if (xlimit - dx) mod S = 0 then [] else [(dx + (xlimit - dx) div S * S, (xlimit - dx) mod S)])"
proof (induction S dx xlimit rule: row_chunks.induct)
  case (1 S dx xlimit)
  show ?case
  proof (cases "dx + S \<le> xlimit")
    case True
    with "1.prems" have IH: "row_chunks S (dx + S) xlimit =
        map (\<lambda>k. (dx + S + k * S, S)) [0..<(xlimit - (dx + S)) div S] @
        (if (xlimit - (dx + S)) mod S = 0 then []
         else [(dx + S + (xlimit - (dx + S)) div S * S, (xlimit - (dx + S)) mod S)])"
      by (intro "1.IH") simp_all
    from True have w: "xlimit - dx = (xlimit - (dx + S)) + S"
      by simp
    have d: "(xlimit - dx) div S = Suc ((xlimit - (dx + S)) div S)"
      using "1.prems"(1) div_add_self2 [of S "xlimit - (dx + S)"] by (simp add: w)
    have r: "(xlimit - dx) mod S = (xlimit - (dx + S)) mod S"
      by (simp add: w)
    have "map (\<lambda>k. (dx + k * S, S)) [0..<Suc ((xlimit - (dx + S)) div S)] =
          (dx, S) # map (\<lambda>k. (dx + S + k * S, S)) [0..<(xlimit - (dx + S)) div S]"
      by (simp add: upt_conv_Cons map_Suc_upt [symmetric] del: upt_Suc)
    with True "1.prems" IH show ?thesis
      by (subst row_chunks.simps) (simp add: d r del: upt_Suc)
  next
    case False
    with "1.prems" have "xlimit - dx < S" by simp
    with False "1.prems" show ?thesis
      by (subst row_chunks.simps) auto
  qed
qed

section \<open>Tier selection\<close>

text \<open>
  Claim C1. For every stage list in which the stage of every node has a non-null entry in
  the lowp stage table, \<open>build_pipeline\<close> returns the lowp entry point and
  \<open>skia_pipe_raster_build_pipeline\<close> returns false.
\<close>

theorem build_pipeline_selects_lowp:
  assumes "stage_chain (nodes m) stages ns"
    and "\<forall>n \<in> set ns. stages_lowp opts (stage n) \<noteq> 0"
  shows "\<exists>m' ip'. build_pipeline opts m stages ip = Some (start_pipeline_lowp, m', ip') \<and>
           skia_pipe_raster_build_pipeline opts m stages ip = Some (False, m')"
  using build_pipeline_all_lowp [OF assms, of ip]
  by (simp add: skia_pipe_raster_build_pipeline_def)

theorem build_pipeline_selects_lowp_witness:
  "stage_chain (nodes example_memory) 3 [node_C, node_B, node_A] \<and>
   (\<exists>m' ip'. build_pipeline example_opts example_memory 3 10 = Some (start_pipeline_lowp, m', ip') \<and>
      skia_pipe_raster_build_pipeline example_opts example_memory 3 10 = Some (False, m'))"
proof -
  have c: "stage_chain (nodes example_memory) 3 [node_C, node_B, node_A]"
    by (simp add: example_memory_def node_A_def node_B_def node_C_def)
  have l: "\<forall>n \<in> set [node_C, node_B, node_A]. stages_lowp example_opts (stage n) \<noteq> 0"
    by (simp add: example_opts_def node_A_def node_B_def node_C_def)
  from c build_pipeline_selects_lowp [OF c l] show ?thesis
    by (rule conjI)
qed

text \<open>
  Claim C2. For every stage list with at least one node whose stage has a null entry in
  the lowp stage table, \<open>build_pipeline\<close> falls back to the highp tier: the call returns,
  with the highp entry point, and \<open>skia_pipe_raster_build_pipeline\<close> returns true. Nothing
  else tells of the fallback: the result carries no error, the nodes are as before, and
  the slot memory differs from the one before the call only between the start of the
  Program and the end of the buffer.
\<close>

theorem build_pipeline_falls_back:
  assumes "stage_chain (nodes m) stages ns"
    and "\<exists>n \<in> set ns. stages_lowp opts (stage n) = 0"
  shows "\<exists>m' ip'. build_pipeline opts m stages ip = Some (start_pipeline_highp, m', ip') \<and>
           skia_pipe_raster_build_pipeline opts m stages ip = Some (True, m') \<and>
           nodes m' = nodes m \<and>
           (\<forall>i. i < ip' \<or> ip \<le> i \<longrightarrow> slots m' i = slots m i)"
  using build_pipeline_some_highp [OF assms, of ip]
  by (simp add: skia_pipe_raster_build_pipeline_def store_at_outside)

theorem build_pipeline_falls_back_witness:
  "stage_chain (nodes example_memory) 5 [node_E, node_D, node_A] \<and>
   stages_lowp example_opts (stage node_D) = 0 \<and>
   (\<exists>m' ip'. build_pipeline example_opts example_memory 5 10 = Some (start_pipeline_highp, m', ip') \<and>
      skia_pipe_raster_build_pipeline example_opts example_memory 5 10 = Some (True, m') \<and>
      nodes m' = nodes example_memory \<and> slots m' 10 = slots example_memory 10)"
proof -
  have c: "stage_chain (nodes example_memory) 5 [node_E, node_D, node_A]"
    by (simp add: example_memory_def node_A_def node_D_def node_E_def)
  have d: "stages_lowp example_opts (stage node_D) = 0"
    by (simp add: example_opts_def node_D_def)
  then have l: "\<exists>n \<in> set [node_E, node_D, node_A]. stages_lowp example_opts (stage n) = 0"
    by simp
  from build_pipeline_falls_back [OF c l, of 10] obtain m' ip' where
    "build_pipeline example_opts example_memory 5 10 = Some (start_pipeline_highp, m', ip')"
    "skia_pipe_raster_build_pipeline example_opts example_memory 5 10 = Some (True, m')"
    "nodes m' = nodes example_memory"
    "\<forall>i. i < ip' \<or> 10 \<le> i \<longrightarrow> slots m' i = slots example_memory i"
    by blast
  with c d show ?thesis
    by auto
qed

section \<open>Layout of the Program\<close>

text \<open>
  Claim C3. For every stage list, the Program that \<open>build_pipeline\<close> leaves between its
  final cursor and the end of the buffer is, read upwards from the cursor, the stages in
  append order (oldest first) followed by the sentinel, each stage as its function pointer
  and, when it has parameters, its parameter pointer in the next slot. For stages A
  (parameters \<open>p1\<close>), B (none), C (parameters \<open>p2\<close>) appended in this order the Program is
  A, \<open>p1\<close>, B, C, \<open>p2\<close>, sentinel.
\<close>

theorem build_pipeline_program_order:
  assumes "stage_chain (nodes m) stages ns"
  shows "\<exists>fn m' ip'. build_pipeline opts m stages ip = Some (fn, m', ip') \<and>
           ip' + int (length (linked_program (stages_of opts fn) (just_return_of opts fn) ns)) = ip \<and>
           read_slots (slots m') ip' (length (linked_program (stages_of opts fn) (just_return_of opts fn) ns))
             = linked_program (stages_of opts fn) (just_return_of opts fn) ns"
proof (cases "\<forall>n \<in> set ns. stages_lowp opts (stage n) \<noteq> 0")
  case True
  let ?P = "linked_program (stages_lowp opts) (just_return_lowp opts) ns"
  have "build_pipeline opts m stages ip =
      Some (start_pipeline_lowp, m\<lparr>slots := store_at (slots m) (ip - int (length ?P)) ?P\<rparr>,
            ip - int (length ?P))"
    using assms True by (rule build_pipeline_all_lowp)
  moreover have "read_slots (store_at (slots m) (ip - int (length ?P)) ?P) (ip - int (length ?P))
      (length ?P) = ?P"
    by (rule read_slots_store_at)
  ultimately show ?thesis by simp
next
  case False
  let ?P = "linked_program (stages_highp opts) (just_return_highp opts) ns"
  from False have "\<exists>n \<in> set ns. stages_lowp opts (stage n) = 0" by simp
  with assms have "build_pipeline opts m stages ip =
      Some (start_pipeline_highp, m\<lparr>slots := store_at (slots m) (ip - int (length ?P)) ?P\<rparr>,
            ip - int (length ?P))"
    by (rule build_pipeline_some_highp)
  moreover have "read_slots (store_at (slots m) (ip - int (length ?P)) ?P) (ip - int (length ?P))
      (length ?P) = ?P"
    by (rule read_slots_store_at)
  ultimately show ?thesis by simp
qed

theorem build_pipeline_program_order_witness:
  "stage_chain (nodes example_memory) 3 [node_C, node_B, node_A] \<and>
   (\<exists>m'. build_pipeline example_opts example_memory 3 10 = Some (start_pipeline_lowp, m', 4) \<and>
      read_slots (slots m') 4 6 = [201, 7001, 202, 203, 7002, 299])"
proof -
  have c: "stage_chain (nodes example_memory) 3 [node_C, node_B, node_A]"
    by (simp add: example_memory_def node_A_def node_B_def node_C_def)
  have l: "\<forall>n \<in> set [node_C, node_B, node_A]. stages_lowp example_opts (stage n) \<noteq> 0"
    by (simp add: example_opts_def node_A_def node_B_def node_C_def)
  have P: "linked_program (stages_lowp example_opts) (just_return_lowp example_opts) [node_C, node_B, node_A]
      = [201, 7001, 202, 203, 7002, 299]"
    by (simp add: linked_program_def entries_def entry_def example_opts_def node_A_def node_B_def node_C_def)
  from build_pipeline_program_order [OF c, of example_opts 10] obtain fn m' ip' where
    b: "build_pipeline example_opts example_memory 3 10 = Some (fn, m', ip')"
    and s: "ip' + int (length (linked_program (stages_of example_opts fn) (just_return_of example_opts fn)
              [node_C, node_B, node_A])) = 10"
    and r: "read_slots (slots m') ip'
              (length (linked_program (stages_of example_opts fn) (just_return_of example_opts fn)
                 [node_C, node_B, node_A]))
            = linked_program (stages_of example_opts fn) (just_return_of example_opts fn)
                 [node_C, node_B, node_A]"
    by blast
  from build_pipeline_all_lowp [OF c l, of 10] b have fn: "fn = start_pipeline_lowp"
    by simp
  from s have ip': "ip' = 4"
    by (simp add: fn P)
  from r have "read_slots (slots m') 4 6 = [201, 7001, 202, 203, 7002, 299]"
    by (simp add: fn P ip' read_slots_numeral)
  with b c show ?thesis
    by (simp add: fn ip')
qed

text \<open>
  Claim C4. For every stage list whose lowp attempt fails, the build starts again from
  the end of the buffer with the highp tier: the slots from the final cursor up to the end
  of the buffer are exactly the highp Program (highp function pointers, the parameter
  pointers, the highp sentinel in the last slot), and the memory after the call is the
  memory before it with that Program stored, so nothing that the lowp attempt wrote is
  left.
\<close>

theorem build_pipeline_fallback_region:
  assumes "stage_chain (nodes m) stages ns"
    and "\<exists>n \<in> set ns. stages_lowp opts (stage n) = 0"
  shows "\<exists>m' ip'. build_pipeline opts m stages ip = Some (start_pipeline_highp, m', ip') \<and>
           ip' + int (length (linked_program (stages_highp opts) (just_return_highp opts) ns)) = ip \<and>
           read_slots (slots m') ip' (length (linked_program (stages_highp opts) (just_return_highp opts) ns))
             = linked_program (stages_highp opts) (just_return_highp opts) ns \<and>
           slots m' (ip - 1) = just_return_highp opts \<and>
           m' = m\<lparr>slots := store_at (slots m) ip' (linked_program (stages_highp opts) (just_return_highp opts) ns)\<rparr>"
proof -
  let ?P = "linked_program (stages_highp opts) (just_return_highp opts) ns"
  have last: "store_at (slots m) (ip - int (length ?P)) ?P (ip - 1) = just_return_highp opts"
    by (simp add: store_at_def linked_program_def nth_append nat_diff_distrib')
  have "read_slots (store_at (slots m) (ip - int (length ?P)) ?P) (ip - int (length ?P))
      (length ?P) = ?P"
    by (rule read_slots_store_at)
  with last build_pipeline_some_highp [OF assms, of ip] show ?thesis
    by simp
qed

theorem build_pipeline_fallback_region_witness:
  "stage_chain (nodes example_memory) 5 [node_E, node_D, node_A] \<and>
   stages_lowp example_opts (stage node_D) = 0 \<and>
   (\<exists>m'. build_pipeline example_opts example_memory 5 10 = Some (start_pipeline_highp, m', 3) \<and>
      read_slots (slots m') 3 7 = [101, 7001, 104, 7003, 103, 7002, 199])"
proof -
  have c: "stage_chain (nodes example_memory) 5 [node_E, node_D, node_A]"
    by (simp add: example_memory_def node_A_def node_D_def node_E_def)
  have d: "stages_lowp example_opts (stage node_D) = 0"
    by (simp add: example_opts_def node_D_def)
  then have l: "\<exists>n \<in> set [node_E, node_D, node_A]. stages_lowp example_opts (stage n) = 0"
    by simp
  have P: "linked_program (stages_highp example_opts) (just_return_highp example_opts) [node_E, node_D, node_A]
      = [101, 7001, 104, 7003, 103, 7002, 199]"
    by (simp add: linked_program_def entries_def entry_def example_opts_def node_A_def node_D_def node_E_def)
  let ?P = "linked_program (stages_highp example_opts) (just_return_highp example_opts)
              [node_E, node_D, node_A]"
  from build_pipeline_fallback_region [OF c l, of 10] obtain m' ip' where
    b: "build_pipeline example_opts example_memory 5 10 = Some (start_pipeline_highp, m', ip')"
    and s: "ip' + int (length ?P) = 10"
    and r: "read_slots (slots m') ip' (length ?P) = ?P"
    by blast
  from s have ip': "ip' = 3"
    by (simp add: P)
  from r have "read_slots (slots m') 3 7 = [101, 7001, 104, 7003, 103, 7002, 199]"
    by (simp add: P ip' read_slots_numeral)
  with b c d show ?thesis
    by (simp add: ip')
qed


section \<open>Size of the Program\<close>

text \<open>
  Claim C5. For every stage list of \<open>n\<close> nodes, each of the two passes of
  \<open>build_pipeline\<close> (the lowp attempt and the highp pass, each with its sentinel) and the
  whole call write only into the \<open>2 * n + 1\<close> slots below the end of the buffer: every
  other slot keeps its value, and the cursor never goes below \<open>ip - (2 * n + 1)\<close>.
\<close>

theorem build_pipeline_slot_bound:
  assumes "stage_chain (nodes m) stages ns"
  shows "(\<exists>m1 ip1. lowp_loop opts ip stages (fst (push (just_return_lowp opts) (m, ip)))
                      (snd (push (just_return_lowp opts) (m, ip))) = Some (m1, ip1) \<and>
            ip - (2 * int (length ns) + 1) \<le> ip1 \<and> ip1 \<le> ip \<and>
            (\<forall>i. i < ip - (2 * int (length ns) + 1) \<or> ip \<le> i \<longrightarrow> slots m1 i = slots m i)) \<and>
         (\<exists>m3 ip3. highp_loop opts stages (fst (push (just_return_highp opts) (m, ip)))
                      (snd (push (just_return_highp opts) (m, ip))) = Some (m3, ip3) \<and>
            ip - (2 * int (length ns) + 1) \<le> ip3 \<and> ip3 \<le> ip \<and>
            (\<forall>i. i < ip - (2 * int (length ns) + 1) \<or> ip \<le> i \<longrightarrow> slots m3 i = slots m i)) \<and>
         (\<exists>fn m' ip'. build_pipeline opts m stages ip = Some (fn, m', ip') \<and>
            ip - (2 * int (length ns) + 1) \<le> ip' \<and> ip' \<le> ip \<and>
            (\<forall>i. i < ip - (2 * int (length ns) + 1) \<or> ip \<le> i \<longrightarrow> slots m' i = slots m i))"
proof (intro conjI)
  have le: "int (slots_needed ns) \<le> 2 * int (length ns)"
    using slots_needed_le [of ns] by linarith
  let ?ml = "m\<lparr>slots := (slots m)(ip - 1 := just_return_lowp opts)\<rparr>"
  let ?mh = "m\<lparr>slots := (slots m)(ip - 1 := just_return_highp opts)\<rparr>"
  from assms have cl: "stage_chain (nodes ?ml) stages ns" and ch: "stage_chain (nodes ?mh) stages ns"
    by simp_all
  from lowp_loop_frame [OF cl, of opts ip "ip - 1"] obtain m1 ip1 where
    l: "lowp_loop opts ip stages ?ml (ip - 1) = Some (m1, ip1)"
    and lc: "ip1 = ip \<or> ip1 = ip - 1 - int (slots_needed ns)"
    and lf: "\<And>i. i < ip - 1 - int (slots_needed ns) \<or> ip - 1 \<le> i \<Longrightarrow> slots m1 i = slots ?ml i"
    by blast
  have "slots m1 i = slots m i" if "i < ip - (2 * int (length ns) + 1) \<or> ip \<le> i" for i
  proof -
    from that le have "slots m1 i = slots ?ml i"
      by (intro lf) linarith
    with that show ?thesis by auto
  qed
  with l lc le
  show "\<exists>m1 ip1. lowp_loop opts ip stages (fst (push (just_return_lowp opts) (m, ip)))
                     (snd (push (just_return_lowp opts) (m, ip))) = Some (m1, ip1) \<and>
           ip - (2 * int (length ns) + 1) \<le> ip1 \<and> ip1 \<le> ip \<and>
           (\<forall>i. i < ip - (2 * int (length ns) + 1) \<or> ip \<le> i \<longrightarrow> slots m1 i = slots m i)"
    by (auto simp: push_def)
  have h: "highp_loop opts stages ?mh (ip - 1) =
      Some (?mh\<lparr>slots := store_at (slots ?mh) (ip - 1 - int (slots_needed ns))
                             (entries (stages_highp opts) ns)\<rparr>,
            ip - 1 - int (slots_needed ns))"
    using ch by (rule highp_loop_stage_chain)
  from le
  show "\<exists>m3 ip3. highp_loop opts stages (fst (push (just_return_highp opts) (m, ip)))
                     (snd (push (just_return_highp opts) (m, ip))) = Some (m3, ip3) \<and>
           ip - (2 * int (length ns) + 1) \<le> ip3 \<and> ip3 \<le> ip \<and>
           (\<forall>i. i < ip - (2 * int (length ns) + 1) \<or> ip \<le> i \<longrightarrow> slots m3 i = slots m i)"
    unfolding push_def by (simp add: h store_at_outside length_entries)
  from build_pipeline_returns [OF assms, of opts ip] le
  show "\<exists>fn m' ip'. build_pipeline opts m stages ip = Some (fn, m', ip') \<and>
           ip - (2 * int (length ns) + 1) \<le> ip' \<and> ip' \<le> ip \<and>
           (\<forall>i. i < ip - (2 * int (length ns) + 1) \<or> ip \<le> i \<longrightarrow> slots m' i = slots m i)"
    by fastforce
qed

theorem build_pipeline_slot_bound_witness:
  "stage_chain (nodes example_memory) 5 [node_E, node_D, node_A] \<and>
   (\<exists>m1 ip1. lowp_loop example_opts 10 5 (fst (push (just_return_lowp example_opts) (example_memory, 10)))
                (snd (push (just_return_lowp example_opts) (example_memory, 10))) = Some (m1, ip1) \<and>
      3 \<le> ip1 \<and> ip1 \<le> 10 \<and> slots m1 2 = slots example_memory 2 \<and> slots m1 10 = slots example_memory 10) \<and>
   (\<exists>fn m' ip'. build_pipeline example_opts example_memory 5 10 = Some (fn, m', ip') \<and>
      3 \<le> ip' \<and> ip' \<le> 10 \<and> slots m' 2 = slots example_memory 2 \<and> slots m' 10 = slots example_memory 10)"
proof -
  have c: "stage_chain (nodes example_memory) 5 [node_E, node_D, node_A]"
    by (simp add: example_memory_def node_A_def node_D_def node_E_def)
  from build_pipeline_slot_bound [OF c, of example_opts 10] obtain m1 ip1 fn m' ip' where
    "lowp_loop example_opts 10 5 (fst (push (just_return_lowp example_opts) (example_memory, 10)))
       (snd (push (just_return_lowp example_opts) (example_memory, 10))) = Some (m1, ip1)"
    "10 - (2 * int (length [node_E, node_D, node_A]) + 1) \<le> ip1" "ip1 \<le> 10"
    "\<forall>i. i < 10 - (2 * int (length [node_E, node_D, node_A]) + 1) \<or> 10 \<le> i \<longrightarrow>
         slots m1 i = slots example_memory i"
    "build_pipeline example_opts example_memory 5 10 = Some (fn, m', ip')"
    "10 - (2 * int (length [node_E, node_D, node_A]) + 1) \<le> ip'" "ip' \<le> 10"
    "\<forall>i. i < 10 - (2 * int (length [node_E, node_D, node_A]) + 1) \<or> 10 \<le> i \<longrightarrow>
         slots m' i = slots example_memory i"
    by blast
  with c show ?thesis
    by simp
qed

section \<open>Empty stage list\<close>

text \<open>
  Claim C6. For the null \<^verbatim>\<open>StageList\<close> pointer, \<open>build_pipeline\<close> writes one slot, the lowp
  sentinel at \<open>ip - 1\<close>, leaves its cursor one slot below the end of the buffer and returns
  the lowp entry point, so \<open>skia_pipe_raster_build_pipeline\<close> returns false.
\<close>

theorem build_pipeline_empty:
  "build_pipeline opts m 0 ip =
     Some (start_pipeline_lowp, m\<lparr>slots := (slots m)(ip - 1 := just_return_lowp opts)\<rparr>, ip - 1)
   \<and> skia_pipe_raster_build_pipeline opts m 0 ip =
     Some (False, m\<lparr>slots := (slots m)(ip - 1 := just_return_lowp opts)\<rparr>)"
  by (simp add: build_pipeline_def skia_pipe_raster_build_pipeline_def push_def lowp_loop.simps)

section \<open>Stage lists are only read\<close>

text \<open>
  Claim C9. \<open>build_pipeline\<close> never writes to a \<^verbatim>\<open>StageList\<close> node: for every stage list
  the node memory after the build is the node memory before it. So for two stage lists
  that share their oldest stages \<open>cs\<close>, building the first and then the second succeeds
  both times and leaves every node, shared or not, as it was; and when the two buffers do
  not overlap, the second build leaves the first Program in place.
\<close>

theorem build_pipeline_nodes_unchanged:
  assumes "stage_chain (nodes m) s1 (xs @ cs)"
    and "stage_chain (nodes m) s2 (ys @ cs)"
  shows "\<exists>fn1 m1 c1 fn2 m2 c2.
           build_pipeline opts m s1 ip1 = Some (fn1, m1, c1) \<and> nodes m1 = nodes m \<and>
           build_pipeline opts m1 s2 ip2 = Some (fn2, m2, c2) \<and> nodes m2 = nodes m \<and>
           (ip2 \<le> ip1 - (2 * int (length (xs @ cs)) + 1) \<or>
            ip1 \<le> ip2 - (2 * int (length (ys @ cs)) + 1) \<longrightarrow>
              read_slots (slots m2) c1 (nat (ip1 - c1)) = read_slots (slots m1) c1 (nat (ip1 - c1)))"
proof -
  from build_pipeline_returns [OF assms(1), of opts ip1] obtain fn1 m1 c1 where
    b1: "build_pipeline opts m s1 ip1 = Some (fn1, m1, c1)"
    and n1: "nodes m1 = nodes m"
    and c1: "c1 = ip1 - int (slots_needed (xs @ cs)) - 1"
    by blast
  from assms(2) n1 have "stage_chain (nodes m1) s2 (ys @ cs)"
    by simp
  from build_pipeline_returns [OF this, of opts ip2] obtain fn2 m2 c2 where
    b2: "build_pipeline opts m1 s2 ip2 = Some (fn2, m2, c2)"
    and n2: "nodes m2 = nodes m1"
    and c2: "c2 = ip2 - int (slots_needed (ys @ cs)) - 1"
    and f2: "\<And>i. i < c2 \<or> ip2 \<le> i \<Longrightarrow> slots m2 i = slots m1 i"
    by blast
  have le1: "int (slots_needed (xs @ cs)) \<le> 2 * int (length (xs @ cs))"
    using slots_needed_le [of "xs @ cs"] by linarith
  have le2: "int (slots_needed (ys @ cs)) \<le> 2 * int (length (ys @ cs))"
    using slots_needed_le [of "ys @ cs"] by linarith
  have "read_slots (slots m2) c1 (nat (ip1 - c1)) = read_slots (slots m1) c1 (nat (ip1 - c1))"
    if apart: "ip2 \<le> ip1 - (2 * int (length (xs @ cs)) + 1) \<or>
               ip1 \<le> ip2 - (2 * int (length (ys @ cs)) + 1)"
  proof (rule read_slots_agree)
    fix i assume "c1 \<le> i \<and> i < c1 + int (nat (ip1 - c1))"
    with apart c1 c2 le1 le2 have "i < c2 \<or> ip2 \<le> i"
      by linarith
    then show "slots m2 i = slots m1 i" by (rule f2)
  qed
  with b1 n1 b2 n2 show ?thesis
    by auto
qed

theorem build_pipeline_nodes_unchanged_witness:
  "stage_chain (nodes example_memory) 3 ([node_C, node_B] @ [node_A]) \<and>
   stage_chain (nodes example_memory) 5 ([node_E, node_D] @ [node_A]) \<and>
   (\<exists>fn1 m1 c1 fn2 m2 c2.
      build_pipeline example_opts example_memory 3 10 = Some (fn1, m1, c1) \<and>
      nodes m1 = nodes example_memory \<and>
      build_pipeline example_opts m1 5 30 = Some (fn2, m2, c2) \<and>
      nodes m2 = nodes example_memory \<and>
      read_slots (slots m2) c1 (nat (10 - c1)) = read_slots (slots m1) c1 (nat (10 - c1)))"
proof -
  have a: "stage_chain (nodes example_memory) 3 ([node_C, node_B] @ [node_A])"
    by (simp add: example_memory_def node_A_def node_B_def node_C_def)
  have b: "stage_chain (nodes example_memory) 5 ([node_E, node_D] @ [node_A])"
    by (simp add: example_memory_def node_A_def node_D_def node_E_def)
  have "(10::int) \<le> 30 - (2 * int (length ([node_E, node_D] @ [node_A])) + 1)"
    by simp
  with build_pipeline_nodes_unchanged [OF a b, of example_opts 10 30] a b show ?thesis
    by blast
qed

section \<open>Entry into the executor\<close>

text \<open>
  Claim C7. For every program pointer, tier flag and coordinates \<open>x\<close>, \<open>y\<close>, \<open>w\<close>, \<open>h\<close>,
  \<open>skia_pipe_raster_run_pipeline\<close> makes exactly one call: of the highp entry point exactly
  when \<open>is_highp\<close> is true, of the lowp entry point exactly when it is false, with the
  arguments \<open>x\<close>, \<open>y\<close>, \<open>x + w\<close>, \<open>y + h\<close> and the program pointer. The two sums are those of
  the source, at the width of \<^verbatim>\<open>unsigned int\<close>.
\<close>

theorem run_pipeline_dispatch:
  "\<exists>c. skia_pipe_raster_run_pipeline program is_highp x y w h = [c] \<and>
        (callee c = start_pipeline_highp) = is_highp \<and>
        (callee c = start_pipeline_lowp) = (\<not> is_highp) \<and>
        arguments c = (unat x, unat y, unat (x + w), unat (y + h), program)"
  by (cases is_highp) (simp_all add: skia_pipe_raster_run_pipeline_def)




section \<open>Chunks of a row\<close>

text \<open>
  Claim C8. For every Program and every rectangle of width \<open>W = x1 - x0\<close> run with batch
  width \<open>S\<close>, each row is processed as \<open>W div S\<close> chunks of \<open>S\<close> lanes, followed by one tail
  chunk of \<open>W mod S\<close> lanes when \<open>S\<close> does not divide \<open>W\<close>, and by no tail chunk when it does.
\<close>

theorem start_pipeline_chunks:
  assumes "0 < S" and "x0 \<le> x1"
  shows "start_pipeline S x0 y0 x1 y1 program =
     concat (map (\<lambda>dy.
        map (\<lambda>k. (program, x0 + k * S, dy, S)) [0..<(x1 - x0) div S] @
        (if (x1 - x0) mod S = 0 then []
         else [(program, x0 + (x1 - x0) div S * S, dy, (x1 - x0) mod S)])) [y0..<y1])"
  unfolding start_pipeline_def row_chunks_closed [OF assms]
  by (simp add: comp_def)

theorem start_pipeline_chunks_witness:
  "(0::nat) < 4 \<and> (0::nat) \<le> 10 \<and>
   start_pipeline 4 0 0 10 2 7 =
     [(7, 0, 0, 4), (7, 4, 0, 4), (7, 8, 0, 2), (7, 0, 1, 4), (7, 4, 1, 4), (7, 8, 1, 2)]"
proof -
  have S: "(0::nat) < 4" and W: "(0::nat) \<le> 10"
    by simp_all
  have "[0..<(10 - 0) div 4] = [0, Suc 0]" "[0..<2] = [0, Suc 0]"
    by (simp_all add: numeral_2_eq_2)
  with start_pipeline_chunks [OF S W, of 0 2 7] show ?thesis
    by simp
qed

end
